theory Spec2Isabelle
  imports Complex_Main "HOL-Library.Multiset"
begin

section \<open>JavaScript values used by \<open>src/index.js\<close>\<close>

text \<open>
  The numbers of the program are IEEE 754 doubles (binary64). A finite double is modelled
  by the rational it denotes; \<open>NaN\<close> and the two infinities are values of their own. Every
  arithmetic result is rounded to the nearest double, ties to the even significand, and
  overflows to an infinity, as the language prescribes (\<open>to_double\<close> below). The sign of
  zero is not modelled. Equality of \<open>jsnum\<close> is the key equality of a JavaScript \<open>Map\<close>
  (SameValueZero, under which \<open>NaN\<close> is equal to itself).
\<close>

datatype jsnum = NaN | Fin rat | PInf | NInf

datatype jsval = Undefined | Num jsnum

datatype js_error = Error string

text \<open>\<open>ToNumber\<close>, applied by \<open>*\<close> to its operands.\<close>

fun to_number :: "jsval \<Rightarrow> jsnum" where
  "to_number Undefined = NaN"
| "to_number (Num n) = n"

text \<open>The infinity of a given sign; the sign 0 stands for an undefined result.\<close>

definition inf_of_sign :: "rat \<Rightarrow> jsnum" where
  "inf_of_sign s = (if 0 < s then PInf else if s < 0 then NInf else NaN)"

fun sign_of :: "jsnum \<Rightarrow> rat" where
  "sign_of NaN = 0"
| "sign_of (Fin a) = sgn a"
| "sign_of PInf = 1"
| "sign_of NInf = - 1"

fun js_neg :: "jsnum \<Rightarrow> jsnum" where
  "js_neg NaN = NaN"
| "js_neg (Fin a) = Fin (- a)"
| "js_neg PInf = NInf"
| "js_neg NInf = PInf"

subsection \<open>Rounding to the nearest double\<close>

text \<open>The nearest integer, a tie going to the even one.\<close>

definition round_even :: "rat \<Rightarrow> int" where
  "round_even t =
     (let f = \<lfloor>t\<rfloor>; r = t - of_int f
      in if r < 1 / 2 then f else if 1 / 2 < r then f + 1 else if even f then f else f + 1)"

text \<open>
  The binary exponent of a positive number: for \<open>1 \<le> x\<close> the number of halvings that bring \<open>x\<close>
  below 2, at most 1024 (from \<open>2^1024\<close> on every number overflows); for \<open>x < 1\<close> the number of
  doublings that bring \<open>x\<close> to 1 or above, at most 1022 (the exponent of the subnormal
  numbers).
\<close>

primrec halvings :: "nat \<Rightarrow> rat \<Rightarrow> nat" where
  "halvings 0 x = 0"
| "halvings (Suc n) x = (if x < 2 then 0 else Suc (halvings n (x / 2)))"

primrec doublings :: "nat \<Rightarrow> rat \<Rightarrow> nat" where
  "doublings 0 x = 0"
| "doublings (Suc n) x = (if 1 \<le> x then 0 else Suc (doublings n (2 * x)))"

text \<open>
  The distance between neighbouring doubles at a positive \<open>x\<close>: \<open>2^(e - 52)\<close> for the
  exponent \<open>e\<close> of \<open>x\<close>, a significand having 53 bits.
\<close>

definition quantum :: "rat \<Rightarrow> rat" where
  "quantum x =
     (if 1 \<le> x then 2 ^ halvings 1024 x / 2 ^ 52
      else 1 / (2 ^ doublings 1022 x * 2 ^ 52))"

text \<open>
  A positive number is rounded to the nearest multiple of its quantum. The result is
  \<open>2^1024\<close> or more, hence \<open>Infinity\<close>, exactly when the exponent is 1024, or is 1023 with
  the significand rounded up to \<open>2^53\<close> (lemma \<open>round_pos_overflow\<close> below).
\<close>

definition round_pos :: "rat \<Rightarrow> jsnum" where
  "round_pos x =
     (let m = round_even (x / quantum x); h = halvings 1024 x
      in if 1 \<le> x \<and> (h = 1024 \<or> h = 1023 \<and> m = 2 ^ 53) then PInf
         else Fin (of_int m * quantum x))"

definition to_double :: "rat \<Rightarrow> jsnum" where
  "to_double x =
     (if x = 0 then Fin 0
      else if 0 < x then round_pos x
      else js_neg (round_pos (- x)))"

subsection \<open>The operators\<close>

text \<open>
  \<open>*\<close>, \<open>+\<close>, \<open>-\<close> and \<open>/\<close> on doubles: the exact result of finite operands is rounded by
  \<open>to_double\<close>; the other cases follow the rules of the language for \<open>NaN\<close>, the infinities and
  a zero divisor.
\<close>

fun js_mul :: "jsnum \<Rightarrow> jsnum \<Rightarrow> jsnum" where
  "js_mul NaN y = NaN"
| "js_mul x NaN = NaN"
| "js_mul (Fin a) (Fin b) = to_double (a * b)"
| "js_mul x y = inf_of_sign (sign_of x * sign_of y)"

fun js_add :: "jsnum \<Rightarrow> jsnum \<Rightarrow> jsnum" where
  "js_add NaN y = NaN"
| "js_add x NaN = NaN"
| "js_add (Fin a) (Fin b) = to_double (a + b)"
| "js_add (Fin a) y = y"
| "js_add x (Fin b) = x"
| "js_add x y = (if x = y then x else NaN)"

definition js_sub :: "jsnum \<Rightarrow> jsnum \<Rightarrow> jsnum" where
  "js_sub x y = js_add x (js_neg y)"

fun js_div :: "jsnum \<Rightarrow> jsnum \<Rightarrow> jsnum" where
  "js_div NaN y = NaN"
| "js_div x NaN = NaN"
| "js_div (Fin a) (Fin b) = (if b = 0 then inf_of_sign (sgn a) else to_double (a / b))"
| "js_div (Fin a) y = Fin 0"
| "js_div x (Fin b) = inf_of_sign (sign_of x * (if b < 0 then - 1 else 1))"
| "js_div x y = NaN"

text \<open>\<open>Math.ceil\<close>; the least integer above a double is a double.\<close>

fun js_ceil :: "jsnum \<Rightarrow> jsnum" where
  "js_ceil (Fin a) = Fin (of_int \<lceil>a\<rceil>)"
| "js_ceil x = x"

text \<open>\<open>v || 0\<close>: the falsy values met here are \<open>undefined\<close>, \<open>NaN\<close> and \<open>0\<close>.\<close>

fun js_or_zero :: "jsval \<Rightarrow> jsnum" where
  "js_or_zero Undefined = Fin 0"
| "js_or_zero (Num NaN) = Fin 0"
| "js_or_zero (Num (Fin a)) = (if a = 0 then Fin 0 else Fin a)"
| "js_or_zero (Num x) = x"

text \<open>The test \<open>0 < c\<close> on the result \<open>c\<close> of a sort comparator (\<open>NaN\<close> counts as 0).\<close>

fun js_positive :: "jsnum \<Rightarrow> bool" where
  "js_positive (Fin a) = (0 < a)"
| "js_positive PInf = True"
| "js_positive x = False"

section \<open>\<open>Map\<close>: an association list in insertion order\<close>

text \<open>
  \<open>Map.prototype.set\<close> overwrites the value of a key that is present, leaving its position,
  and appends a new key at the end. \<open>Map.prototype.get\<close> answers \<open>undefined\<close> for a key
  that is absent.
\<close>

fun map_set :: "('k \<times> 'v) list \<Rightarrow> 'k \<Rightarrow> 'v \<Rightarrow> ('k \<times> 'v) list" where
  "map_set [] k v = [(k, v)]"
| "map_set ((k', v') # m) k v =
     (if k' = k then (k, v) # m else (k', v') # map_set m k v)"

definition imageWidths_get :: "(int \<times> jsval) list \<Rightarrow> int \<Rightarrow> jsval" where
  "imageWidths_get m k = (case map_of m k of None \<Rightarrow> Undefined | Some v \<Rightarrow> v)"

definition perfectWidths_get :: "(jsnum \<times> jsnum) list \<Rightarrow> jsnum \<Rightarrow> jsval" where
  "perfectWidths_get m k = (case map_of m k of None \<Rightarrow> Undefined | Some v \<Rightarrow> Num v)"

text \<open>\<open>new Map(entries)\<close>: the entries are set one after the other.\<close>

definition new_Map :: "('k \<times> 'v) list \<Rightarrow> ('k \<times> 'v) list" where
  "new_Map entries = foldl (\<lambda>m (k, v). map_set m k v) [] entries"

section \<open>Inputs of \<open>main\<close>\<close>

text \<open>
  Modelled from the spec: the records returned by \<open>getContexts\<close> (\<open>./getContexts\<close> is not
  part of the sources at hand). The spec's VisitorRecord is
  \<open>{viewport: integer > 0, density: real > 0, views: integer \<ge> 0}\<close>; the fields carry these
  types. \<open>density\<close> and \<open>views\<close> are the numbers as the data give them (1.1 is \<open>11 / 10\<close>); the
  JavaScript numbers the code computes with are their doubles, \<open>to_double (density r)\<close> and
  \<open>to_double (of_nat (views r))\<close>.
\<close>

record visitor_record =
  viewport :: int
  density :: rat
  views :: nat

text \<open>
  Modelled from the spec: the bounds \<open>minViewport\<close> and \<open>maxViewport\<close> are integers. They are
  read after \<open>adjustViewportsWithContexts\<close> (not part of the sources at hand) has set them;
  \<open>widthsNumber\<close> only appears in a log message.
\<close>

record options =
  minViewport :: int
  maxViewport :: int
  widthsNumber :: nat

text \<open>The object \<open>VIEWPORT\<close> passed to \<open>page.setViewport\<close>.\<close>

record viewport_obj =
  width :: int
  height :: int
  deviceScaleFactor :: int

text \<open>
  The headless browser. Each awaited call either resolves or rejects with an error:
  \<open>launch\<close> stands for \<open>puppeteer.launch()\<close> followed by \<open>browser.newPage()\<close>, \<open>goto\<close> for
  \<open>page.goto(url)\<close>, \<open>close\<close> for \<open>page.browser().close()\<close>. \<open>evaluate\<close> is
  \<open>document.querySelector(sel).width\<close> read in the page once the given viewport is applied:
  it rejects when the selector matches nothing and is \<open>undefined\<close> for an element without a
  \<open>width\<close> property. The layout is taken to depend on the applied viewport only, and the
  pause \<open>sleep(options.delay)\<close> has no counterpart here.
\<close>

record browser =
  launch :: "js_error option"
  goto :: "js_error option"
  setViewport :: "viewport_obj \<Rightarrow> js_error option"
  evaluate :: "viewport_obj \<Rightarrow> js_error + jsval"
  close :: "js_error option"

section \<open>Step 2: the sweep over viewport widths\<close>

text \<open>
  The state the \<open>while\<close> loop works on: the mutable object \<open>VIEWPORT\<close> and the map
  \<open>imageWidths\<close>, both declared outside the promise chain, so what was written before a
  rejection stays. \<open>requests\<close> records the arguments of the calls of \<open>page.setViewport\<close>,
  in order.
\<close>

record sweep_state =
  VIEWPORT :: viewport_obj
  imageWidths :: "(int \<times> jsval) list"
  requests :: "viewport_obj list"

function while_sweep :: "browser \<Rightarrow> int \<Rightarrow> sweep_state \<Rightarrow> js_error option \<times> sweep_state" where
  "while_sweep b maxVp s =
     (if width (VIEWPORT s) \<le> maxVp then
        (let s1 = s\<lparr>requests := requests s @ [VIEWPORT s]\<rparr> in
         case setViewport b (VIEWPORT s) of
           Some e \<Rightarrow> (Some e, s1)
         | None \<Rightarrow>
             (case evaluate b (VIEWPORT s) of
                Inl e \<Rightarrow> (Some e, s1)
              | Inr imageWidth \<Rightarrow>
                  while_sweep b maxVp
                    (s1\<lparr>imageWidths := map_set (imageWidths s1) (width (VIEWPORT s1)) imageWidth,
                        VIEWPORT := (VIEWPORT s1)\<lparr>width := width (VIEWPORT s1) + 1\<rparr>\<rparr>)))
      else (None, s))"
  by pat_completeness auto
termination
  by (relation "measure (\<lambda>(b, maxVp, s). nat (maxVp + 1 - width (VIEWPORT s)))") auto

text \<open>
  \<open>page.goto(...).then(sweep).catch(log)\<close>: a rejected navigation skips the loop; the error
  of the navigation or of the loop, if any, is the one handed to \<open>catch\<close>.
\<close>

definition sweep :: "browser \<Rightarrow> options \<Rightarrow> js_error option \<times> sweep_state" where
  "sweep b opts =
     (let s0 = \<lparr>VIEWPORT = \<lparr>width = minViewport opts, height = 2000, deviceScaleFactor = 1\<rparr>,
                imageWidths = [], requests = []\<rparr>
      in case goto b of
           Some e \<Rightarrow> (Some e, s0)
         | None \<Rightarrow> while_sweep b (maxViewport opts) s0)"

section \<open>Step 3: the perfect widths and their shares of the views\<close>

text \<open>\<open>Math.ceil(imageWidths.get(value.viewport) * value.density)\<close>\<close>

definition perfectWidth_of :: "(int \<times> jsval) list \<Rightarrow> visitor_record \<Rightarrow> jsnum" where
  "perfectWidth_of iw value =
     js_ceil (js_mul (to_number (imageWidths_get iw (viewport value)))
                (to_double (density value)))"

record agg_state =
  perfectWidths :: "(jsnum \<times> jsnum) list"
  totalViews :: jsnum

text \<open>The callback of \<open>contexts.map\<close>.\<close>

definition count_context ::
  "options \<Rightarrow> (int \<times> jsval) list \<Rightarrow> agg_state \<Rightarrow> visitor_record \<Rightarrow> agg_state" where
  "count_context opts iw st value =
     (if viewport value \<ge> minViewport opts \<and> viewport value \<le> maxViewport opts then
        (let perfectWidth = perfectWidth_of iw value in
         \<lparr>perfectWidths =
            map_set (perfectWidths st) perfectWidth
              (js_add (js_or_zero (perfectWidths_get (perfectWidths st) perfectWidth))
                 (to_double (of_nat (views value)))),
          totalViews = js_add (totalViews st) (to_double (of_nat (views value)))\<rparr>)
      else st)"

definition count_contexts ::
  "options \<Rightarrow> (int \<times> jsval) list \<Rightarrow> visitor_record list \<Rightarrow> agg_state" where
  "count_contexts opts iw contexts =
     foldl (count_context opts iw) \<lparr>perfectWidths = [], totalViews = Fin 0\<rparr> contexts"

text \<open>
  \<open>perfectWidths.forEach((views, width) => perfectWidths.set(width, views / totalViews))\<close>:
  each entry is visited once, and a \<open>set\<close> on a key that is present changes no other entry.
\<close>

definition to_percentages :: "agg_state \<Rightarrow> (jsnum \<times> jsnum) list" where
  "to_percentages st =
     foldl (\<lambda>m (w, n). map_set m w (js_div n (totalViews st))) (perfectWidths st) (perfectWidths st)"

text \<open>
  \<open>[...perfectWidths.entries()].sort((a, b) => b[1] - a[1])\<close>. The sort of an array is
  stable; it is written as an insertion sort that moves an entry \<open>a\<close> behind \<open>b\<close> only when
  the comparator is positive on \<open>(a, b)\<close>.
\<close>

definition compare_entries :: "jsnum \<times> jsnum \<Rightarrow> jsnum \<times> jsnum \<Rightarrow> jsnum" where
  "compare_entries a b = js_sub (snd b) (snd a)"

fun insert_entry :: "jsnum \<times> jsnum \<Rightarrow> (jsnum \<times> jsnum) list \<Rightarrow> (jsnum \<times> jsnum) list" where
  "insert_entry a [] = [a]"
| "insert_entry a (b # bs) =
     (if js_positive (compare_entries a b) then b # insert_entry a bs else a # b # bs)"

definition sort_entries :: "(jsnum \<times> jsnum) list \<Rightarrow> (jsnum \<times> jsnum) list" where
  "sort_entries entries = foldr insert_entry entries []"

definition sort_by_decreasing :: "(jsnum \<times> jsnum) list \<Rightarrow> (jsnum \<times> jsnum) list" where
  "sort_by_decreasing m = new_Map (sort_entries m)"

text \<open>The map \<open>perfectWidths\<close> as it stands at line 189 of \<open>src/index.js\<close>.\<close>

definition demand_distribution ::
  "options \<Rightarrow> (int \<times> jsval) list \<Rightarrow> visitor_record list \<Rightarrow> (jsnum \<times> jsnum) list" where
  "demand_distribution opts iw contexts =
     sort_by_decreasing (to_percentages (count_contexts opts iw contexts))"

section \<open>The whole of \<open>main\<close>\<close>

text \<open>
  What a run leaves behind: the two maps, the resize requests, the errors handed to
  \<open>logger.error\<close> by the \<open>catch\<close> of line 148, and \<open>srcset\<close>. The console output, the
  tables and the two files written (each \<open>writeFile\<close> has a \<open>catch\<close> of its own) are left
  out. A rejection of \<open>launch\<close> or \<open>close\<close> is not caught and rejects \<open>main\<close>.
\<close>

record run =
  measured :: "(int \<times> jsval) list"
  resize_requests :: "viewport_obj list"
  logged_errors :: "js_error list"
  distribution :: "(jsnum \<times> jsnum) list"
  total :: jsnum
  srcset :: "jsnum list"

definition main :: "browser \<Rightarrow> options \<Rightarrow> visitor_record list \<Rightarrow> js_error + run" where
  "main b opts contexts =
     (case launch b of
        Some e \<Rightarrow> Inl e
      | None \<Rightarrow>
          (let (failure, sw) = sweep b opts in
           case close b of
             Some e \<Rightarrow> Inl e
           | None \<Rightarrow>
               (let counted = count_contexts opts (imageWidths sw) contexts in
                Inr \<lparr>measured = imageWidths sw,
                     resize_requests = requests sw,
                     logged_errors = (case failure of None \<Rightarrow> [] | Some e \<Rightarrow> [e]),
                     distribution = sort_by_decreasing (to_percentages counted),
                     total = totalViews counted,
                     srcset = []\<rparr>)))"

section \<open>The specification's reading of the aggregation\<close>

text \<open>The test of line 169: the record's viewport lies within the bounds of the sweep.\<close>

definition in_range :: "options \<Rightarrow> visitor_record \<Rightarrow> bool" where
  "in_range opts r = (minViewport opts \<le> viewport r \<and> viewport r \<le> maxViewport opts)"



definition spec_totalViews :: "visitor_record list \<Rightarrow> nat" where
  "spec_totalViews rs = sum_list (map views rs)"


text \<open>
  The sum of a list of numbers as the language adds them, from left to right, and the
  rational a finite number denotes (0 stands in for the others).
\<close>

definition js_sum :: "jsnum list \<Rightarrow> jsnum" where
  "js_sum xs = foldl js_add (Fin 0) xs"

fun the_fin :: "jsnum \<Rightarrow> rat" where
  "the_fin (Fin a) = a"
| "the_fin x = 0"

section \<open>Auxiliary notions of the proofs\<close>

text \<open>The object \<open>VIEWPORT\<close> of lines 49 to 53 when its width is \<open>w\<close>.\<close>

definition viewport_at :: "int \<Rightarrow> viewport_obj" where
  "viewport_at w = \<lparr>width = w, height = 2000, deviceScaleFactor = 1\<rparr>"

text \<open>
  Counting in natural numbers: \<open>bump\<close> adds \<open>x\<close> views to the count of \<open>k\<close>, \<open>tally\<close> does so
  for a list of pairs, \<open>demands\<close> lists the perfect width and the views of every record
  within the bounds, and \<open>shares\<close> divides every count by the total \<open>t\<close>.
\<close>

fun bump :: "('k \<times> nat) list \<Rightarrow> 'k \<Rightarrow> nat \<Rightarrow> ('k \<times> nat) list" where
  "bump [] k x = [(k, x)]"
| "bump ((k', n) # m) k x = (if k' = k then (k, n + x) # m else (k', n) # bump m k x)"

definition tally :: "('k \<times> nat) list \<Rightarrow> ('k \<times> nat) list" where
  "tally xs = foldl (\<lambda>m (k, x). bump m k x) [] xs"

definition as_number :: "jsnum \<times> nat \<Rightarrow> jsnum \<times> jsnum" where
  "as_number = (\<lambda>(k, n). (k, Fin (of_nat n)))"

definition demands ::
  "options \<Rightarrow> (int \<times> jsval) list \<Rightarrow> visitor_record list \<Rightarrow> (jsnum \<times> nat) list" where
  "demands opts iw contexts =
     map (\<lambda>r. (perfectWidth_of iw r, views r)) (filter (in_range opts) contexts)"

definition shares :: "nat \<Rightarrow> (jsnum \<times> nat) list \<Rightarrow> (jsnum \<times> jsnum) list" where
  "shares t m = map (\<lambda>(k, n). (k, js_div (Fin (of_nat n)) (Fin (of_nat t)))) m"

text \<open>The entries of \<open>perfectWidths\<close> once every count is divided by \<open>totalViews\<close>.\<close>

definition percentages :: "agg_state \<Rightarrow> (jsnum \<times> jsnum) list" where
  "percentages st = map (\<lambda>(w, n). (w, js_div n (totalViews st))) (perfectWidths st)"

section \<open>Example runs\<close>

text \<open>
  The end-to-end scenario of the specification: a page whose image is as wide as the
  viewport, swept from 300 to 302, and two visitor records. The shares of the run are the
  doubles nearest to \<open>10 / 15\<close> and \<open>5 / 15\<close>.
\<close>

definition ex_browser :: browser where
  "ex_browser = \<lparr>launch = None, goto = None, setViewport = (\<lambda>v. None),
     evaluate = (\<lambda>v. Inr (Num (Fin (of_int (width v))))), close = None\<rparr>"

definition ex_options :: options where
  "ex_options = \<lparr>minViewport = 300, maxViewport = 302, widthsNumber = 1\<rparr>"

definition ex_contexts :: "visitor_record list" where
  "ex_contexts = [\<lparr>viewport = 300, density = 1, views = 10\<rparr>,
                  \<lparr>viewport = 301, density = 2, views = 5\<rparr>]"

definition ex_measured :: "(int \<times> jsval) list" where
  "ex_measured = [(300, Num (Fin 300)), (301, Num (Fin 301)), (302, Num (Fin 302))]"

definition ex_requests :: "viewport_obj list" where
  "ex_requests = [\<lparr>width = 300, height = 2000, deviceScaleFactor = 1\<rparr>,
                  \<lparr>width = 301, height = 2000, deviceScaleFactor = 1\<rparr>,
                  \<lparr>width = 302, height = 2000, deviceScaleFactor = 1\<rparr>]"

definition ex_run :: run where
  "ex_run = \<lparr>measured = ex_measured, resize_requests = ex_requests, logged_errors = [],
             distribution = [(Fin 300, Fin (6004799503160661 / 9007199254740992)),
                             (Fin 602, Fin (6004799503160661 / 18014398509481984))],
             total = Fin 15, srcset = []\<rparr>"

text \<open>The same page when the navigation is rejected, and a visitor record without views.\<close>

definition ex_offline_browser :: browser where
  "ex_offline_browser = ex_browser\<lparr>goto := Some (Error ''net::ERR_NAME_NOT_RESOLVED'')\<rparr>"

definition ex_idle_contexts :: "visitor_record list" where
  "ex_idle_contexts = [\<lparr>viewport = 300, density = 1, views = 0\<rparr>]"

text \<open>Three records with 7, 2 and 1 views, and a record with the density 1.1.\<close>

definition ex_uneven_contexts :: "visitor_record list" where
  "ex_uneven_contexts = [\<lparr>viewport = 300, density = 1, views = 7\<rparr>,
                         \<lparr>viewport = 301, density = 1, views = 2\<rparr>,
                         \<lparr>viewport = 302, density = 1, views = 1\<rparr>]"

definition ex_dense_record :: visitor_record where
  "ex_dense_record = \<lparr>viewport = 300, density = 11 / 10, views = 5\<rparr>"

section \<open>The sweep loop\<close>

declare while_sweep.simps [simp del]

lemma map_set_fresh: "k \<notin> fst ` set m \<Longrightarrow> map_set m k v = m @ [(k, v)]"
  by (induction m) auto

lemma while_sweep_done: "maxVp < width (VIEWPORT s) \<Longrightarrow> while_sweep b maxVp s = (None, s)"
  by (subst while_sweep.simps) simp

lemma while_sweep_success:
  assumes ok: "\<And>w. lo \<le> w \<Longrightarrow> w \<le> hi \<Longrightarrow>
            setViewport b (viewport_at w) = None \<and> evaluate b (viewport_at w) = Inr (f w)"
    and fresh: "\<And>k. k \<in> fst ` set iw \<Longrightarrow> k < lo"
    and n: "n = nat (hi + 1 - lo)"
  shows "while_sweep b hi \<lparr>VIEWPORT = viewport_at lo, imageWidths = iw, requests = rq\<rparr> =
         (None, \<lparr>VIEWPORT = viewport_at (max lo (hi + 1)),
                 imageWidths = iw @ map (\<lambda>w. (w, f w)) [lo..hi],
                 requests = rq @ map viewport_at [lo..hi]\<rparr>)"
  using assms
proof (induction n arbitrary: lo iw rq)
  case 0
  then have "hi < lo" by simp
  then show ?case by (simp add: while_sweep_done viewport_at_def max_def)
next
  case (Suc n)
  then have le: "lo \<le> hi" by simp
  have here: "setViewport b (viewport_at lo) = None" "evaluate b (viewport_at lo) = Inr (f lo)"
    using Suc.prems(1)[of lo] le by simp_all
  have notin: "lo \<notin> fst ` set iw" using Suc.prems(2) by force
  have step: "while_sweep b hi \<lparr>VIEWPORT = viewport_at lo, imageWidths = iw, requests = rq\<rparr> =
      while_sweep b hi \<lparr>VIEWPORT = viewport_at (lo + 1), imageWidths = iw @ [(lo, f lo)],
                        requests = rq @ [viewport_at lo]\<rparr>"
    using le here notin
    by (subst while_sweep.simps) (simp add: map_set_fresh viewport_at_def)
  have fresh': "\<And>k. k \<in> fst ` set (iw @ [(lo, f lo)]) \<Longrightarrow> k < lo + 1"
    using Suc.prems(2) by force
  have ok': "\<And>w. lo + 1 \<le> w \<Longrightarrow> w \<le> hi \<Longrightarrow>
      setViewport b (viewport_at w) = None \<and> evaluate b (viewport_at w) = Inr (f w)"
    using Suc.prems(1) by simp
  have n': "n = nat (hi + 1 - (lo + 1))" using Suc.prems(3) by simp
  have "while_sweep b hi \<lparr>VIEWPORT = viewport_at (lo + 1), imageWidths = iw @ [(lo, f lo)],
                        requests = rq @ [viewport_at lo]\<rparr> =
      (None, \<lparr>VIEWPORT = viewport_at (max (lo + 1) (hi + 1)),
                 imageWidths = (iw @ [(lo, f lo)]) @ map (\<lambda>w. (w, f w)) [lo + 1..hi],
                 requests = (rq @ [viewport_at lo]) @ map viewport_at [lo + 1..hi]\<rparr>)"
    by (rule Suc.IH[OF ok' fresh' n'])
  with step le show ?case by (simp add: upto_rec1[of lo hi] max_def)
qed

lemma while_sweep_requests:
  "height (VIEWPORT s) = 2000 \<Longrightarrow> deviceScaleFactor (VIEWPORT s) = 1 \<Longrightarrow>
   \<exists>n. requests (snd (while_sweep b hi s)) =
          requests s @ map viewport_at [width (VIEWPORT s) .. width (VIEWPORT s) + int n - 1]"
proof (induction b hi s rule: while_sweep.induct)
  case (1 b maxVp s)
  let ?w = "width (VIEWPORT s)"
  have vp: "VIEWPORT s = viewport_at ?w" using "1.prems" by (simp add: viewport_at_def)
  show ?case
  proof (cases "?w \<le> maxVp")
    case False
    then have "requests (snd (while_sweep b maxVp s)) = requests s @ map viewport_at [?w .. ?w + int 0 - 1]"
      by (simp add: while_sweep_done)
    then show ?thesis by blast
  next
    case True
    have one: "requests s @ [VIEWPORT s] = requests s @ map viewport_at [?w .. ?w + int 1 - 1]"
      using vp by simp
    show ?thesis
    proof (cases "setViewport b (VIEWPORT s)")
      case (Some e)
      then have "requests (snd (while_sweep b maxVp s)) = requests s @ [VIEWPORT s]"
        using True by (subst while_sweep.simps) simp
      with one show ?thesis by metis
    next
      case None
      show ?thesis
      proof (cases "evaluate b (VIEWPORT s)")
        case (Inl e)
        then have "requests (snd (while_sweep b maxVp s)) = requests s @ [VIEWPORT s]"
          using True None by (subst while_sweep.simps) simp
        with one show ?thesis by metis
      next
        case (Inr imageWidth)
        let ?s1 = "s\<lparr>requests := requests s @ [VIEWPORT s]\<rparr>"
        let ?s2 = "?s1\<lparr>imageWidths := map_set (imageWidths ?s1) (width (VIEWPORT ?s1)) imageWidth,
                        VIEWPORT := (VIEWPORT ?s1)\<lparr>width := width (VIEWPORT ?s1) + 1\<rparr>\<rparr>"
        have unf: "while_sweep b maxVp s = while_sweep b maxVp ?s2"
          using True None Inr by (subst while_sweep.simps) (simp add: Let_def)
        have "\<exists>n. requests (snd (while_sweep b maxVp ?s2)) =
          requests ?s2 @ map viewport_at [width (VIEWPORT ?s2) .. width (VIEWPORT ?s2) + int n - 1]"
          using "1.IH"[OF True refl None Inr] "1.prems" by simp
        then obtain n where n: "requests (snd (while_sweep b maxVp ?s2)) =
          requests ?s2 @ map viewport_at [width (VIEWPORT ?s2) .. width (VIEWPORT ?s2) + int n - 1]"
          by blast
        have "requests (snd (while_sweep b maxVp s)) =
            requests s @ map viewport_at [?w .. ?w + int (Suc n) - 1]"
          using n unf vp by (simp add: upto_rec1[of ?w "?w + int n"])
        then show ?thesis by blast
      qed
    qed
  qed
qed

section \<open>Rounding\<close>

lemma round_even_cases:
  "round_even t = \<lfloor>t\<rfloor> \<and> t - of_int \<lfloor>t\<rfloor> \<le> 1 / 2 \<or>
   round_even t = \<lfloor>t\<rfloor> + 1 \<and> 1 / 2 \<le> t - of_int \<lfloor>t\<rfloor>"
  by (auto simp: round_even_def Let_def)

lemma round_even_error: "\<bar>of_int (round_even t) - t\<bar> \<le> 1 / 2"
proof -
  have "of_int \<lfloor>t\<rfloor> \<le> t" "t < of_int \<lfloor>t\<rfloor> + 1" by linarith+
  then show ?thesis using round_even_cases[of t] by auto
qed

lemma round_even_ge: "of_int j \<le> t \<Longrightarrow> j \<le> round_even t"
proof -
  assume "of_int j \<le> t"
  then have "j \<le> \<lfloor>t\<rfloor>" by (simp add: le_floor_iff)
  then show ?thesis using round_even_cases[of t] by auto
qed

lemma round_even_of_int: "round_even (of_int j) = j"
  by (simp add: round_even_def)

lemma halvings_le: "1 \<le> x \<Longrightarrow> 2 ^ halvings n x \<le> x"
proof (induction n arbitrary: x)
  case 0
  then show ?case by simp
next
  case (Suc n)
  show ?case
  proof (cases "x < 2")
    case True
    then show ?thesis using Suc.prems by simp
  next
    case False
    then have "1 \<le> x / 2" by simp
    then have "2 ^ halvings n (x / 2) \<le> x / 2" by (rule Suc.IH)
    then show ?thesis using False by simp
  qed
qed

lemma quantum_pos: "0 < quantum x"
  by (simp add: quantum_def)

lemma quantum_unit: "x \<le> 1 \<Longrightarrow> quantum x \<le> 1 / 2 ^ 52"
proof (cases "1 \<le> x")
  case True
  assume "x \<le> 1"
  with True have "x = 1" by simp
  then show ?thesis by (simp add: quantum_def eval_nat_numeral)
next
  case False
  have "(1 :: rat) \<le> 2 ^ doublings 1022 x" by simp
  then have "(1 :: rat) * 2 ^ 52 \<le> 2 ^ doublings 1022 x * 2 ^ 52"
    by (intro mult_right_mono) simp_all
  then have "1 / (2 ^ doublings 1022 x * 2 ^ 52) \<le> 1 / ((1 :: rat) * 2 ^ 52)"
    by (intro divide_left_mono) simp_all
  then show ?thesis using False by (simp add: quantum_def)
qed

lemma halvings_one: "halvings 1024 1 = 0"
  by (simp add: eval_nat_numeral)

lemma round_pos_exact:
  assumes "x / quantum x = of_int j" and "x < 1 \<or> halvings 1024 x < 1023"
  shows "round_pos x = Fin x"
proof -
  have "round_even (x / quantum x) = j"
    by (simp add: assms(1) round_even_of_int)
  then have "of_int (round_even (x / quantum x)) * quantum x = x / quantum x * quantum x"
    by (simp add: assms(1))
  also have "\<dots> = x"
    using quantum_pos[of x] by simp
  finally have "of_int (round_even (x / quantum x)) * quantum x = x" .
  then show ?thesis using assms(2) by (auto simp: round_pos_def Let_def)
qed

lemma div_pow2:
  fixes x :: rat
  assumes "h \<le> k"
  shows "x / (2 ^ h / 2 ^ k) = x * 2 ^ (k - h)"
proof -
  have "(2 :: rat) ^ k = 2 ^ (k - h) * 2 ^ h"
    using assms by (simp flip: power_add)
  then show ?thesis by simp
qed

lemma to_double_of_nat:
  assumes "n \<le> 2 ^ 53"
  shows "to_double (of_nat n) = Fin (of_nat n)"
proof (cases "n = 0")
  case True
  then show ?thesis by (simp add: to_double_def)
next
  case False
  let ?x = "of_nat n :: rat"
  let ?h = "halvings 1024 ?x"
  have x1: "1 \<le> ?x" using False by simp
  have xb: "?x \<le> 2 ^ 53" using assms by (metis of_nat_le_iff of_nat_numeral of_nat_power)
  have hx: "(2 :: rat) ^ ?h \<le> ?x" by (rule halvings_le[OF x1])
  then have le: "(2 :: rat) ^ ?h \<le> 2 ^ 53" using xb by linarith
  have h53: "?h \<le> 53" by (rule power_le_imp_le_exp[OF _ le]) simp
  have q: "quantum ?x = 2 ^ ?h / 2 ^ 52" using x1 by (simp add: quantum_def)
  have "\<exists>j. ?x / quantum ?x = of_int j"
  proof (cases "?h \<le> 52")
    case True
    have "?x / quantum ?x = ?x * 2 ^ (52 - ?h)"
      unfolding q by (rule div_pow2[OF True])
    also have "\<dots> = of_int (int n * 2 ^ (52 - ?h))" by simp
    finally show ?thesis by blast
  next
    case False
    then have h: "?h = 53" using h53 by simp
    then have "?x = 2 ^ 53" using hx xb by simp
    then have "?x / quantum ?x = of_int (2 ^ 52)" unfolding q h by simp
    then show ?thesis by blast
  qed
  then obtain j where j: "?x / quantum ?x = of_int j" by blast
  have "?x < 1 \<or> ?h < 1023" using h53 by simp
  then have "round_pos ?x = Fin ?x" by (rule round_pos_exact[OF j])
  then show ?thesis using False by (simp add: to_double_def)
qed

lemma round_pos_ge:
  assumes "1 \<le> w" and "w \<le> 2 ^ 53" and "of_int w \<le> x"
  shows "round_pos x = PInf \<or> (\<exists>y. round_pos x = Fin y \<and> of_int w \<le> y)"
proof -
  let ?h = "halvings 1024 x"
  let ?m = "round_even (x / quantum x)"
  have "(1 :: rat) \<le> of_int w" using assms(1) by simp
  then have x1: "1 \<le> x" using assms(3) by (rule order_trans)
  have q: "quantum x = 2 ^ ?h / 2 ^ 52" using x1 by (simp add: quantum_def)
  have hx: "(2 :: rat) ^ ?h \<le> x" by (rule halvings_le[OF x1])
  have "of_int w \<le> of_int ?m * quantum x"
  proof (cases "?h \<le> 52")
    case True
    have "of_int w / quantum x = of_int w * 2 ^ (52 - ?h)"
      unfolding q by (rule div_pow2[OF True])
    then have wq: "of_int w / quantum x = of_int (w * 2 ^ (52 - ?h))"
      by simp
    have "of_int w / quantum x \<le> x / quantum x"
      using assms(3) quantum_pos[of x] by (simp add: divide_right_mono)
    then have "w * 2 ^ (52 - ?h) \<le> ?m"
      unfolding wq by (rule round_even_ge)
    then have "(of_int (w * 2 ^ (52 - ?h)) :: rat) \<le> of_int ?m"
      by (simp only: of_int_le_iff)
    then have "of_int w / quantum x \<le> of_int ?m"
      by (simp only: wq)
    then show ?thesis
      using quantum_pos[of x] by (simp add: pos_divide_le_eq)
  next
    case False
    then have h: "53 \<le> ?h" by simp
    have xq: "x / quantum x = x / 2 ^ ?h * 2 ^ 52" unfolding q by simp
    have a1: "1 \<le> x / 2 ^ ?h" using hx by simp
    have "1 * (2 :: rat) ^ 52 \<le> x / 2 ^ ?h * 2 ^ 52"
      by (rule mult_right_mono[OF a1]) simp
    then have "(2 :: rat) ^ 52 \<le> x / quantum x"
      unfolding xq by (simp only: mult_1)
    then have "(of_int (2 ^ 52) :: rat) \<le> x / quantum x"
      by (simp only: of_int_power of_int_numeral)
    then have "2 ^ 52 \<le> ?m" by (rule round_even_ge)
    then have "(2 :: rat) ^ 52 \<le> of_int ?m"
      by (metis of_int_le_iff of_int_numeral of_int_power)
    then have "(2 :: rat) ^ 52 * quantum x \<le> of_int ?m * quantum x"
      using quantum_pos[of x] by (simp add: mult_right_mono)
    moreover have "(2 :: rat) ^ 52 * quantum x = 2 ^ ?h" unfolding q by simp
    moreover have "(2 :: rat) ^ 53 \<le> 2 ^ ?h" by (rule power_increasing[OF h]) simp
    moreover have "(of_int w :: rat) \<le> 2 ^ 53"
      using assms(2) by (metis of_int_le_iff of_int_numeral of_int_power)
    ultimately show ?thesis by linarith
  qed
  then show ?thesis by (auto simp: round_pos_def Let_def)
qed

lemma to_double_unit:
  assumes "0 \<le> x" and "x \<le> 1"
  shows "\<exists>y. to_double x = Fin y \<and> \<bar>y - x\<bar> \<le> 1 / 2 ^ 53"
proof (cases "x = 0")
  case True
  then show ?thesis by (simp add: to_double_def)
next
  case False
  then have pos: "0 < x" using assms(1) by simp
  let ?q = "quantum x"
  let ?y = "of_int (round_even (x / ?q)) * ?q"
  have "\<bar>of_int (round_even (x / ?q)) - x / ?q\<bar> * ?q \<le> 1 / 2 * ?q"
    using round_even_error[of "x / ?q"] quantum_pos[of x] by (simp add: mult_right_mono)
  moreover have "\<bar>of_int (round_even (x / ?q)) - x / ?q\<bar> * ?q = \<bar>?y - x\<bar>"
  proof -
    have "\<bar>of_int (round_even (x / ?q)) - x / ?q\<bar> * ?q =
          \<bar>(of_int (round_even (x / ?q)) - x / ?q) * ?q\<bar>"
      using quantum_pos[of x] by (simp add: abs_mult)
    also have "(of_int (round_even (x / ?q)) - x / ?q) * ?q = ?y - x"
      using quantum_pos[of x] by (simp add: left_diff_distrib)
    finally show ?thesis .
  qed
  ultimately have err: "\<bar>?y - x\<bar> \<le> 1 / 2 * ?q" by simp
  have "1 / 2 * ?q \<le> 1 / 2 * (1 / 2 ^ 52)"
    using quantum_unit[OF assms(2)] by simp
  also have "\<dots> = 1 / (2 :: rat) ^ 53" by simp
  finally have bound: "\<bar>?y - x\<bar> \<le> 1 / 2 ^ 53" using err by linarith
  have "\<not> (1 \<le> x \<and> (halvings 1024 x = 1024 \<or>
            halvings 1024 x = 1023 \<and> round_even (x / ?q) = 2 ^ 53))"
  proof (cases "1 \<le> x")
    case True
    then have "x = 1" using assms(2) by simp
    then show ?thesis by (simp add: halvings_one)
  next
    case False
    then show ?thesis by simp
  qed
  then have "round_pos x = Fin ?y" by (simp add: round_pos_def Let_def)
  then show ?thesis using pos bound by (auto simp: to_double_def)
qed

text \<open>The test for \<open>Infinity\<close> in \<open>round_pos\<close> is the test that the rounded number is \<open>2^1024\<close> or more.\<close>

lemma round_even_le: "t \<le> of_int j \<Longrightarrow> round_even t \<le> j"
proof -
  assume le: "t \<le> of_int j"
  show ?thesis
  proof (cases "t = of_int j")
    case True
    then show ?thesis by (simp add: round_even_of_int)
  next
    case False
    then have "t < of_int j" using le by simp
    then have "\<lfloor>t\<rfloor> < j" by (simp add: floor_less_iff)
    then show ?thesis using round_even_cases[of t] by auto
  qed
qed

lemma halvings_fuel: "halvings n x \<le> n"
  by (induction n arbitrary: x) simp_all

lemma halvings_gt: "halvings n x < n \<Longrightarrow> x < 2 * 2 ^ halvings n x"
proof (induction n arbitrary: x)
  case 0
  then show ?case by simp
next
  case (Suc n)
  show ?case
  proof (cases "x < 2")
    case True
    then show ?thesis by simp
  next
    case False
    then have "halvings n (x / 2) < n" using Suc.prems by simp
    then have "x / 2 < 2 * 2 ^ halvings n (x / 2)" by (rule Suc.IH)
    then show ?thesis using False by simp
  qed
qed

lemma scale_lt:
  fixes a :: rat
  assumes "a < 2"
  shows "a * 2 ^ k < 2 * 2 ^ k"
  by (rule mult_strict_right_mono[OF assms]) simp

lemma round_pos_overflow:
  assumes "0 < x"
  shows "(round_pos x = PInf) = (2 ^ 1024 \<le> of_int (round_even (x / quantum x)) * quantum x)"
proof (cases "1 \<le> x")
  case False
  let ?q = "quantum x"
  let ?y = "of_int (round_even (x / ?q)) * ?q"
  have q: "?q \<le> 1 / 2 ^ 52" using False by (intro quantum_unit) simp
  have "\<bar>of_int (round_even (x / ?q)) - x / ?q\<bar> * ?q \<le> 1 / 2 * ?q"
    using round_even_error[of "x / ?q"] quantum_pos[of x] by (simp add: mult_right_mono)
  moreover have "\<bar>of_int (round_even (x / ?q)) - x / ?q\<bar> * ?q = \<bar>?y - x\<bar>"
  proof -
    have "\<bar>of_int (round_even (x / ?q)) - x / ?q\<bar> * ?q =
          \<bar>(of_int (round_even (x / ?q)) - x / ?q) * ?q\<bar>"
      using quantum_pos[of x] by (simp add: abs_mult)
    also have "(of_int (round_even (x / ?q)) - x / ?q) * ?q = ?y - x"
      using quantum_pos[of x] by (simp add: left_diff_distrib)
    finally show ?thesis .
  qed
  ultimately have "\<bar>?y - x\<bar> \<le> 1 / 2 * ?q" by simp
  then have "?y \<le> x + 1 / 2 * (1 / 2 ^ 52)" using q by linarith
  then have "?y < 2" using False by simp
  moreover have "(2 :: rat) \<le> 2 ^ 1024" by simp
  ultimately have "\<not> 2 ^ 1024 \<le> ?y" by linarith
  then show ?thesis using False by (simp add: round_pos_def Let_def)
next
  case True
  let ?h = "halvings 1024 x"
  let ?m = "round_even (x / quantum x)"
  have q: "quantum x = 2 ^ ?h / 2 ^ 52" using True by (simp add: quantum_def)
  have y: "of_int ?m * quantum x = of_int ?m * 2 ^ ?h / 2 ^ 52" unfolding q by simp
  have xq: "x / quantum x = x / 2 ^ ?h * 2 ^ 52" unfolding q by simp
  have hl: "(2 :: rat) ^ ?h \<le> x" by (rule halvings_le[OF True])
  have a1: "1 \<le> x / 2 ^ ?h" using hl by simp
  have "1 * (2 :: rat) ^ 52 \<le> x / 2 ^ ?h * 2 ^ 52"
    by (rule mult_right_mono[OF a1]) simp
  then have "(of_int (2 ^ 52) :: rat) \<le> x / quantum x"
    unfolding xq by (simp only: mult_1 of_int_power of_int_numeral)
  then have "2 ^ 52 \<le> ?m" by (rule round_even_ge)
  then have mlow: "(2 :: rat) ^ 52 \<le> of_int ?m"
    by (metis of_int_le_iff of_int_numeral of_int_power)
  consider "?h = 1024" | "?h = 1023" | "?h \<le> 1022"
    using halvings_fuel[of 1024 x] by linarith
  then show ?thesis
  proof cases
    case 1
    have "(2 :: rat) ^ 52 * 2 ^ ?h \<le> of_int ?m * 2 ^ ?h"
      using mlow by (simp add: mult_right_mono)
    then have "(2 :: rat) ^ ?h \<le> of_int ?m * 2 ^ ?h / 2 ^ 52"
      by (simp add: pos_le_divide_eq mult.commute)
    then have "2 ^ 1024 \<le> of_int ?m * quantum x" unfolding y 1 .
    then show ?thesis using True 1 by (simp add: round_pos_def Let_def)
  next
    case 2
    have a2: "x / 2 ^ ?h < 2"
      using halvings_gt[of 1024 x] 2 by (simp add: pos_divide_less_eq)
    have "x / 2 ^ ?h * 2 ^ 52 < 2 * 2 ^ 52"
      by (rule scale_lt[OF a2])
    also have "(2 :: rat) * 2 ^ 52 = of_int (2 ^ 53)" by simp
    finally have "x / quantum x \<le> of_int (2 ^ 53)" unfolding xq by simp
    then have "?m \<le> 2 ^ 53" by (rule round_even_le)
    have "(2 ^ 1024 \<le> of_int ?m * quantum x) = ((2 :: rat) ^ 1024 \<le> of_int ?m * (2 ^ 1023 / 2 ^ 52))"
      unfolding q 2 ..
    also have "\<dots> = ((2 :: rat) ^ 53 \<le> of_int ?m)" by simp
    also have "\<dots> = (2 ^ 53 \<le> ?m)"
      by (metis of_int_le_iff of_int_numeral of_int_power)
    also have "\<dots> = (?m = 2 ^ 53)" using \<open>?m \<le> 2 ^ 53\<close> by linarith
    finally show ?thesis using True 2 by (simp add: round_pos_def Let_def)
  next
    case 3
    have lt: "?h < 1024" using 3 by simp
    have a2: "x / 2 ^ ?h < 2"
      using halvings_gt[OF lt] by (simp add: pos_divide_less_eq)
    have "x / 2 ^ ?h * 2 ^ 52 < 2 * 2 ^ 52"
      by (rule scale_lt[OF a2])
    also have "(2 :: rat) * 2 ^ 52 = of_int (2 ^ 53)" by simp
    finally have "x / quantum x \<le> of_int (2 ^ 53)" unfolding xq by simp
    then have "?m \<le> 2 ^ 53" by (rule round_even_le)
    then have m53: "(of_int ?m :: rat) \<le> 2 ^ 53"
      by (metis of_int_le_iff of_int_numeral of_int_power)
    have h1022: "(2 :: rat) ^ ?h \<le> 2 ^ 1022"
      by (rule power_increasing[OF 3]) simp
    have "of_int ?m * (2 :: rat) ^ ?h \<le> 2 ^ 53 * 2 ^ 1022"
      by (rule mult_mono[OF m53 h1022]) simp_all
    then have "of_int ?m * (2 :: rat) ^ ?h / 2 ^ 52 \<le> 2 ^ 53 * 2 ^ 1022 / 2 ^ 52"
      by (simp add: divide_right_mono)
    also have "\<dots> < (2 :: rat) ^ 1024" by simp
    finally have "\<not> 2 ^ 1024 \<le> of_int ?m * quantum x" unfolding y by simp
    then show ?thesis using True 3 by (simp add: round_pos_def Let_def)
  qed
qed

section \<open>Counting the views per perfect width\<close>

lemma sum_bump: "sum_list (map snd (bump m k x)) = sum_list (map snd m) + x"
  by (induction m) auto

lemma map_fst_bump:
  "map fst (bump m k x) = (if k \<in> set (map fst m) then map fst m else map fst m @ [k])"
proof (induction m)
  case Nil
  show ?case by simp
next
  case (Cons a m)
  obtain k' n where a: "a = (k', n)" by (cases a)
  show ?case using Cons by (simp add: a)
qed

lemma keys_bump: "fst ` set (bump m k x) = insert k (fst ` set m)"
proof -
  have "set (map fst (bump m k x)) = insert k (set (map fst m))"
    unfolding map_fst_bump by auto
  then show ?thesis by simp
qed

lemma distinct_bump: "distinct (map fst m) \<Longrightarrow> distinct (map fst (bump m k x))"
  unfolding map_fst_bump by simp


lemma tally_snoc: "tally (xs @ [(k, x)]) = bump (tally xs) k x"
  by (simp add: tally_def)

lemma tally_Nil: "tally [] = []"
  by (simp add: tally_def)

lemma sum_tally: "sum_list (map snd (tally xs)) = sum_list (map snd xs)"
proof (induction xs rule: rev_induct)
  case Nil
  show ?case by (simp add: tally_Nil)
next
  case (snoc p xs)
  obtain k x where p: "p = (k, x)" by (cases p)
  show ?case using snoc by (simp add: p tally_snoc sum_bump)
qed

lemma keys_tally: "fst ` set (tally xs) = fst ` set xs"
proof (induction xs rule: rev_induct)
  case Nil
  show ?case by (simp add: tally_Nil)
next
  case (snoc p xs)
  obtain k x where p: "p = (k, x)" by (cases p)
  show ?case using snoc by (simp add: p tally_snoc keys_bump)
qed

lemma distinct_tally: "distinct (map fst (tally xs))"
proof (induction xs rule: rev_induct)
  case Nil
  show ?case by (simp add: tally_Nil)
next
  case (snoc p xs)
  obtain k x where p: "p = (k, x)" by (cases p)
  show ?case using snoc by (simp add: p tally_snoc distinct_bump)
qed


lemma map_fst_map_set:
  "map fst (map_set m k v) = (if k \<in> set (map fst m) then map fst m else map fst m @ [k])"
proof (induction m)
  case Nil
  show ?case by simp
next
  case (Cons a m)
  obtain k' v' where a: "a = (k', v')" by (cases a)
  show ?case using Cons by (simp add: a)
qed

lemma count_context_out: "\<not> in_range opts r \<Longrightarrow> count_context opts iw st r = st"
  by (auto simp add: count_context_def in_range_def)

lemma count_contexts_snoc:
  "count_contexts opts iw (cs @ [r]) = count_context opts iw (count_contexts opts iw cs) r"
  by (simp add: count_contexts_def)

lemma keys_count_context:
  "in_range opts r \<Longrightarrow>
   map fst (perfectWidths (count_context opts iw st r)) =
     (if perfectWidth_of iw r \<in> set (map fst (perfectWidths st)) then map fst (perfectWidths st)
      else map fst (perfectWidths st) @ [perfectWidth_of iw r])"
  by (simp add: count_context_def in_range_def Let_def map_fst_map_set)

lemma distinct_counted: "distinct (map fst (perfectWidths (count_contexts opts iw cs)))"
proof (induction cs rule: rev_induct)
  case Nil
  show ?case by (simp add: count_contexts_def)
next
  case (snoc r cs)
  show ?case
  proof (cases "in_range opts r")
    case True
    show ?thesis
      unfolding count_contexts_snoc keys_count_context[OF True] using snoc by simp
  next
    case False
    show ?thesis
      unfolding count_contexts_snoc count_context_out[OF False] by (rule snoc)
  qed
qed

lemma keys_counted:
  "set (map fst (perfectWidths (count_contexts opts iw cs))) =
     perfectWidth_of iw ` set (filter (in_range opts) cs)"
proof (induction cs rule: rev_induct)
  case Nil
  show ?case by (simp add: count_contexts_def)
next
  case (snoc r cs)
  show ?case
  proof (cases "in_range opts r")
    case True
    show ?thesis
      unfolding count_contexts_snoc keys_count_context[OF True] using snoc True by auto
  next
    case False
    show ?thesis
      unfolding count_contexts_snoc count_context_out[OF False] using snoc False by simp
  qed
qed

lemma add_counts:
  assumes "a + b \<le> 2 ^ 53"
  shows "js_add (Fin (of_nat a)) (to_double (of_nat b)) = Fin (of_nat (a + b))"
proof -
  have "b \<le> 2 ^ 53" using assms by simp
  then have "to_double (of_nat b) = Fin (of_nat b)" by (rule to_double_of_nat)
  moreover have "to_double (of_nat (a + b)) = Fin (of_nat (a + b))"
    by (rule to_double_of_nat[OF assms])
  ultimately show ?thesis by simp
qed

lemma js_or_zero_Fin: "js_or_zero (Num (Fin a)) = Fin a"
  by simp

lemma set_counted:
  assumes "sum_list (map snd m) + x \<le> 2 ^ 53"
  shows "map_set (map as_number m) k
     (js_add (js_or_zero (perfectWidths_get (map as_number m) k)) (to_double (of_nat x))) =
   map as_number (bump m k x)"
  using assms
proof (induction m)
  case Nil
  have "js_add (Fin (of_nat 0)) (to_double (of_nat x)) = Fin (of_nat (0 + x))"
    by (rule add_counts) (use Nil in simp)
  then show ?case by (simp add: as_number_def perfectWidths_get_def)
next
  case (Cons a m)
  obtain k' n where a: "a = (k', n)" by (cases a)
  show ?case
  proof (cases "k' = k")
    case True
    have "js_add (Fin (of_nat n)) (to_double (of_nat x)) = Fin (of_nat (n + x))"
      by (rule add_counts) (use Cons.prems a in simp)
    then show ?thesis
      using True
      by (simp add: a as_number_def perfectWidths_get_def js_or_zero_Fin del: js_or_zero.simps)
  next
    case False
    have "sum_list (map snd m) + x \<le> 2 ^ 53" using Cons.prems by (simp add: a)
    then have IH: "map_set (map as_number m) k
       (js_add (js_or_zero (perfectWidths_get (map as_number m) k)) (to_double (of_nat x))) =
       map as_number (bump m k x)" by (rule Cons.IH)
    have "perfectWidths_get (map as_number (a # m)) k = perfectWidths_get (map as_number m) k"
      using False by (simp add: a as_number_def perfectWidths_get_def)
    then show ?thesis using False IH by (simp add: a as_number_def)
  qed
qed

lemma count_context_in:
  assumes "in_range opts r" and "perfectWidths st = map as_number m"
    and "totalViews st = Fin (of_nat (sum_list (map snd m)))"
    and "sum_list (map snd m) + views r \<le> 2 ^ 53"
  shows "count_context opts iw st r =
    \<lparr>perfectWidths = map as_number (bump m (perfectWidth_of iw r) (views r)),
     totalViews = Fin (of_nat (sum_list (map snd m) + views r))\<rparr>"
  using assms by (simp add: count_context_def in_range_def set_counted add_counts)

lemma sum_demands:
  "sum_list (map snd (demands opts iw cs)) = spec_totalViews (filter (in_range opts) cs)"
  by (simp add: demands_def spec_totalViews_def comp_def)

lemma count_contexts_tally:
  assumes "spec_totalViews (filter (in_range opts) cs) \<le> 2 ^ 53"
  shows "count_contexts opts iw cs =
     \<lparr>perfectWidths = map as_number (tally (demands opts iw cs)),
      totalViews = Fin (of_nat (spec_totalViews (filter (in_range opts) cs)))\<rparr>"
  using assms
proof (induction cs rule: rev_induct)
  case Nil
  show ?case by (simp add: count_contexts_def demands_def tally_def spec_totalViews_def)
next
  case (snoc r cs)
  show ?case
  proof (cases "in_range opts r")
    case True
    have d: "demands opts iw (cs @ [r]) = demands opts iw cs @ [(perfectWidth_of iw r, views r)]"
      using True by (simp add: demands_def)
    have t: "spec_totalViews (filter (in_range opts) (cs @ [r])) =
             spec_totalViews (filter (in_range opts) cs) + views r"
      using True by (simp add: spec_totalViews_def)
    have b: "spec_totalViews (filter (in_range opts) cs) \<le> 2 ^ 53"
      using snoc.prems unfolding t by simp
    have s: "sum_list (map snd (tally (demands opts iw cs))) =
             spec_totalViews (filter (in_range opts) cs)"
      by (simp add: sum_tally sum_demands)
    have "count_context opts iw (count_contexts opts iw cs) r =
      \<lparr>perfectWidths = map as_number (bump (tally (demands opts iw cs)) (perfectWidth_of iw r) (views r)),
       totalViews = Fin (of_nat (sum_list (map snd (tally (demands opts iw cs))) + views r))\<rparr>"
      by (rule count_context_in[OF True]) (use snoc.IH[OF b] snoc.prems s t in simp_all)
    then show ?thesis
      unfolding count_contexts_snoc t d by (simp add: tally_snoc s)
  next
    case False
    have d: "demands opts iw (cs @ [r]) = demands opts iw cs"
      using False by (simp add: demands_def)
    have t: "spec_totalViews (filter (in_range opts) (cs @ [r])) =
             spec_totalViews (filter (in_range opts) cs)"
      using False by (simp add: spec_totalViews_def)
    show ?thesis
      unfolding count_contexts_snoc count_context_out[OF False] d t
      by (rule snoc.IH) (use snoc.prems t in simp)
  qed
qed

section \<open>Percentages, sorting and the rebuilt map\<close>

lemma map_set_present:
  "k \<notin> fst ` set pre \<Longrightarrow> map_set (pre @ (k, v0) # rest) k v = pre @ (k, v) # rest"
  by (induction pre) auto

lemma forEach_set:
  "distinct (map fst (pre @ xs)) \<Longrightarrow>
   foldl (\<lambda>m (w, n). map_set m w (f n)) (pre @ xs) xs = pre @ map (\<lambda>(w, n). (w, f n)) xs"
proof (induction xs arbitrary: pre)
  case Nil
  show ?case by simp
next
  case (Cons a xs)
  obtain w n where a: "a = (w, n)" by (cases a)
  have w: "w \<notin> fst ` set pre" using Cons.prems by (auto simp: a)
  have d: "distinct (map fst ((pre @ [(w, f n)]) @ xs))" using Cons.prems by (simp add: a)
  have "foldl (\<lambda>m (w, n). map_set m w (f n)) (pre @ a # xs) (a # xs) =
        foldl (\<lambda>m (w, n). map_set m w (f n)) ((pre @ [(w, f n)]) @ xs) xs"
    by (simp add: a map_set_present[OF w])
  also have "\<dots> = (pre @ [(w, f n)]) @ map (\<lambda>(w, n). (w, f n)) xs"
    by (rule Cons.IH[OF d])
  finally show ?case by (simp add: a)
qed

lemma to_percentages_map:
  "distinct (map fst (perfectWidths st)) \<Longrightarrow>
   to_percentages st = map (\<lambda>(w, n). (w, js_div n (totalViews st))) (perfectWidths st)"
  unfolding to_percentages_def using forEach_set[of "[]" "perfectWidths st"] by simp

lemma new_Map_append:
  "distinct (map fst (pre @ xs)) \<Longrightarrow> foldl (\<lambda>m (k, v). map_set m k v) pre xs = pre @ xs"
proof (induction xs arbitrary: pre)
  case Nil
  show ?case by simp
next
  case (Cons a xs)
  obtain k v where a: "a = (k, v)" by (cases a)
  have k: "k \<notin> fst ` set pre" using Cons.prems by (auto simp: a)
  have d: "distinct (map fst ((pre @ [(k, v)]) @ xs))" using Cons.prems by (simp add: a)
  show ?case using Cons.IH[OF d] by (simp add: a map_set_fresh[OF k])
qed

lemma new_Map_distinct: "distinct (map fst xs) \<Longrightarrow> new_Map xs = xs"
  unfolding new_Map_def using new_Map_append[of "[]" xs] by simp

lemma mset_insert_entry: "mset (insert_entry a bs) = add_mset a (mset bs)"
  by (induction bs) auto

lemma mset_sort_entries: "mset (sort_entries xs) = mset xs"
  unfolding sort_entries_def by (induction xs) (auto simp: mset_insert_entry)

lemma distinct_keys_perm:
  assumes "mset ys = mset xs" "distinct (map fst xs)"
  shows "distinct (map fst ys)"
proof -
  have "mset (map fst ys) = mset (map fst xs)" using assms(1) by (metis mset_map)
  then show ?thesis using assms(2) by (metis mset_eq_imp_distinct_iff)
qed

lemma sort_by_decreasing_perm:
  assumes "distinct (map fst m)"
  shows "mset (sort_by_decreasing m) = mset m"
proof -
  have "distinct (map fst (sort_entries m))"
    using distinct_keys_perm[OF mset_sort_entries assms] .
  then show ?thesis by (simp add: sort_by_decreasing_def new_Map_distinct mset_sort_entries)
qed


lemma to_percentages_eq: "to_percentages (count_contexts opts iw cs) = percentages (count_contexts opts iw cs)"
  unfolding percentages_def by (rule to_percentages_map[OF distinct_counted])

lemma distinct_percentages: "distinct (map fst (percentages (count_contexts opts iw cs)))"
proof -
  have "map fst (percentages st) = map fst (perfectWidths st)" for st
    by (simp add: percentages_def case_prod_unfold)
  then show ?thesis by (simp add: distinct_counted)
qed

lemma mset_demand_distribution:
  "mset (demand_distribution opts iw cs) = mset (percentages (count_contexts opts iw cs))"
  unfolding demand_distribution_def to_percentages_eq
  by (rule sort_by_decreasing_perm[OF distinct_percentages])

lemma set_demand_distribution:
  "set (demand_distribution opts iw cs) = set (percentages (count_contexts opts iw cs))"
  using mset_demand_distribution by (metis set_mset_mset)

lemma distinct_demand_distribution: "distinct (map fst (demand_distribution opts iw cs))"
  by (rule distinct_keys_perm[OF mset_demand_distribution distinct_percentages])


lemma keys_demand_distribution:
  "fst ` set (demand_distribution opts iw cs) =
     perfectWidth_of iw ` set (filter (in_range opts) cs)"
proof -
  have "map fst (percentages st) = map fst (perfectWidths st)" for st
    by (simp add: percentages_def case_prod_unfold)
  then have "fst ` set (percentages (count_contexts opts iw cs)) =
        set (map fst (perfectWidths (count_contexts opts iw cs)))"
    by (metis set_map)
  then show ?thesis unfolding set_demand_distribution keys_counted .
qed

lemma percentages_shares:
  assumes "spec_totalViews (filter (in_range opts) cs) \<le> 2 ^ 53"
  shows "percentages (count_contexts opts iw cs) =
     shares (spec_totalViews (filter (in_range opts) cs)) (tally (demands opts iw cs))"
  unfolding count_contexts_tally[OF assms]
  by (simp add: percentages_def shares_def as_number_def case_prod_unfold comp_def)


section \<open>The run as a whole, and evaluation on examples\<close>

lemma main_resolves:
  assumes "launch b = None" "close b = None"
  shows "main b opts cs =
    Inr \<lparr>measured = imageWidths (snd (sweep b opts)),
         resize_requests = requests (snd (sweep b opts)),
         logged_errors = (case fst (sweep b opts) of None \<Rightarrow> [] | Some e \<Rightarrow> [e]),
         distribution = demand_distribution opts (imageWidths (snd (sweep b opts))) cs,
         total = totalViews (count_contexts opts (imageWidths (snd (sweep b opts))) cs),
         srcset = []\<rparr>"
  using assms by (simp add: main_def demand_distribution_def case_prod_unfold Let_def)

lemma to_double_pos: "0 < x \<Longrightarrow> to_double x = round_pos x"
  by (simp add: to_double_def)





lemma sum_list_perm:
  fixes f :: "'a \<Rightarrow> rat"
  assumes "mset xs = mset ys"
  shows "sum_list (map f xs) = sum_list (map f ys)"
proof -
  have "sum_mset (mset (map f xs)) = sum_mset (mset (map f ys))"
    using assms by (metis mset_map)
  then show ?thesis by (simp only: sum_mset_sum_list)
qed

lemma all_fin_map:
  "(\<And>x. x \<in> set xs \<Longrightarrow> \<exists>a. x = Fin a) \<Longrightarrow> map Fin (map the_fin xs) = xs"
proof (induction xs)
  case Nil
  show ?case by simp
next
  case (Cons x xs)
  obtain a where "x = Fin a" using Cons.prems[of x] by auto
  then show ?case using Cons by simp
qed

lemma share_error:
  assumes "0 < t" and "n \<le> t"
  shows "\<exists>y. js_div (Fin (of_nat n)) (Fin (of_nat t)) = Fin y \<and>
             \<bar>y - of_nat n / of_nat t\<bar> \<le> 1 / 2 ^ 53"
proof -
  have "(0 :: rat) \<le> of_nat n / of_nat t" by simp
  moreover have "(of_nat n :: rat) / of_nat t \<le> 1" using assms by simp
  ultimately have "\<exists>y. to_double (of_nat n / of_nat t) = Fin y \<and>
      \<bar>y - of_nat n / of_nat t\<bar> \<le> 1 / 2 ^ 53"
    by (rule to_double_unit)
  then show ?thesis using assms(1) by simp
qed

lemma shares_error:
  assumes "0 < t" and "sum_list (map snd m) \<le> t"
  shows "(\<forall>e \<in> set (shares t m). \<exists>a. snd e = Fin a) \<and>
         \<bar>sum_list (map (\<lambda>e. the_fin (snd e)) (shares t m)) -
            of_nat (sum_list (map snd m)) / of_nat t\<bar> \<le> of_nat (length m) * (1 / 2 ^ 53)"
  using assms(2)
proof (induction m)
  case Nil
  show ?case by (simp add: shares_def)
next
  case (Cons p m)
  obtain k n where p: "p = (k, n)" by (cases p)
  have n: "n \<le> t" and rest: "sum_list (map snd m) \<le> t" using Cons.prems by (simp_all add: p)
  obtain y where y: "js_div (Fin (of_nat n)) (Fin (of_nat t)) = Fin y"
      "\<bar>y - of_nat n / of_nat t\<bar> \<le> 1 / 2 ^ 53"
    using share_error[OF assms(1) n] by blast
  let ?S = "sum_list (map (\<lambda>e. the_fin (snd e)) (shares t m))"
  let ?E = "(of_nat (sum_list (map snd m)) :: rat) / of_nat t"
  have IH: "(\<forall>e \<in> set (shares t m). \<exists>a. snd e = Fin a)"
      "\<bar>?S - ?E\<bar> \<le> of_nat (length m) * (1 / 2 ^ 53)"
    using Cons.IH[OF rest] by simp_all
  have sh: "shares t (p # m) = (k, Fin y) # shares t m"
    using y(1) by (simp add: shares_def p)
  have "\<bar>(y + ?S) - (of_nat n / of_nat t + ?E)\<bar> \<le> \<bar>y - of_nat n / of_nat t\<bar> + \<bar>?S - ?E\<bar>"
    by linarith
  also have "\<dots> \<le> 1 / 2 ^ 53 + of_nat (length m) * (1 / 2 ^ 53)"
    using y(2) IH(2) by linarith
  also have "\<dots> = of_nat (length (p # m)) * (1 / 2 ^ 53)"
    by (simp add: algebra_simps)
  finally have "\<bar>(y + ?S) - (of_nat n / of_nat t + ?E)\<bar> \<le> of_nat (length (p # m)) * (1 / 2 ^ 53)" .
  moreover have "of_nat (sum_list (map snd (p # m))) / (of_nat t :: rat) = of_nat n / of_nat t + ?E"
    by (simp add: p add_divide_distrib)
  ultimately show ?case using IH(1) unfolding sh by simp
qed

lemma ratio_self: "0 < (t :: nat) \<Longrightarrow> (of_nat t :: rat) / of_nat t = 1"
  by simp

lemma shares_of_nothing:
  assumes "sum_list (map snd m) = 0" "x \<in> set (shares 0 m)"
  shows "snd x = NaN"
proof -
  obtain k n where kn: "(k, n) \<in> set m" "x = (k, js_div (Fin (of_nat n)) (Fin (of_nat 0)))"
    using assms(2) by (auto simp: shares_def)
  have "n \<in> set (map snd m)" using kn(1) by force
  then have "n \<le> sum_list (map snd m)" by (simp add: member_le_sum_list)
  then have "n = 0" using assms(1) by simp
  then show ?thesis using kn(2) by (simp add: inf_of_sign_def)
qed


lemma halvings_numeral:
  "halvings (numeral k) x = (if x < 2 then 0 else Suc (halvings (pred_numeral k) (x / 2)))"
  by (simp add: numeral_eq_Suc)

lemma doublings_numeral:
  "doublings (numeral k) x = (if 1 \<le> x then 0 else Suc (doublings (pred_numeral k) (2 * x)))"
  by (simp add: numeral_eq_Suc)

lemma floor_numeral_quotient: "\<lfloor>numeral a / numeral b :: rat\<rfloor> = numeral a div numeral b"
  using floor_divide_of_int_eq[of "numeral a" "numeral b", where ?'a = rat] by simp

lemma ceiling_numeral_quotient:
  "\<lceil>numeral a / numeral b :: rat\<rceil> = - (- numeral a div numeral b)"
  using ceiling_divide_eq_div[of "numeral a" "numeral b", where ?'a = rat] by simp

lemmas double_eval = to_double_def round_pos_def quantum_def round_even_def Let_def
  halvings_numeral doublings_numeral floor_numeral_quotient ceiling_numeral_quotient

lemmas run_eval = main_def sweep_def while_sweep.simps count_contexts_def count_context_def
  perfectWidth_of_def imageWidths_get_def perfectWidths_get_def to_percentages_def
  sort_by_decreasing_def sort_entries_def compare_entries_def js_sub_def new_Map_def
  inf_of_sign_def demand_distribution_def

lemmas ex_eval = ex_browser_def ex_offline_browser_def ex_options_def ex_contexts_def
  ex_idle_contexts_def ex_uneven_contexts_def ex_dense_record_def ex_measured_def
  ex_requests_def ex_run_def

lemma main_ex: "main ex_browser ex_options ex_contexts = Inr ex_run"
  by (simp add: run_eval double_eval ex_eval)

text \<open>
  Some doubles: 0.1; \<open>0.1 + 0.2\<close>, which is \<open>0.30000000000000004\<close>; the double 1.1, which
  rounds to itself; \<open>300 * 1.1\<close>, which is 330, and \<open>330 * 1.1\<close>, which is
  \<open>363.00000000000006\<close>; and the integers next to \<open>2^53\<close>.
\<close>

lemma double_examples:
  "to_double (1 / 10) = Fin (3602879701896397 / 36028797018963968)"
  "js_add (to_double (1 / 10)) (to_double (2 / 10)) = Fin (1351079888211149 / 4503599627370496)"
  "to_double (2476979795053773 / 2251799813685248) = Fin (2476979795053773 / 2251799813685248)"
  "js_mul (Fin 300) (to_double (11 / 10)) = Fin 330"
  "js_mul (Fin 330) (to_double (11 / 10)) = Fin (6385963534123009 / 17592186044416)"
  "js_ceil (js_mul (Fin 330) (to_double (11 / 10))) = Fin 364"
  "to_double (2 ^ 53 + 1) = Fin (2 ^ 53)"
  "to_double (- (2 ^ 53 + 3)) = Fin (- (2 ^ 53 + 4))"
  by (simp_all add: double_eval)

section \<open>The claims\<close>

subsection \<open>The sweep\<close>

text \<open>
  C1. When the navigation succeeds and the browser answers every resize and every
  measurement within the bounds, the sweep ends without an error and \<open>imageWidths\<close> is the
  list of the pairs \<open>(w, reported w)\<close> for \<open>w = min, min + 1, \<dots>, max\<close> in this order: one
  entry per integer viewport width, inserted by increasing key, each key mapped to the width
  the browser reported at that viewport width.
\<close>

theorem sweep_measures_each_width:
  assumes "goto b = None"
    and "\<And>w. minViewport opts \<le> w \<Longrightarrow> w \<le> maxViewport opts \<Longrightarrow>
           setViewport b \<lparr>width = w, height = 2000, deviceScaleFactor = 1\<rparr> = None \<and>
           evaluate b \<lparr>width = w, height = 2000, deviceScaleFactor = 1\<rparr> = Inr (reported w)"
  shows "fst (sweep b opts) = None \<and>
         imageWidths (snd (sweep b opts)) =
           map (\<lambda>w. (w, reported w)) [minViewport opts .. maxViewport opts]"
proof -
  have ok: "\<And>w. minViewport opts \<le> w \<Longrightarrow> w \<le> maxViewport opts \<Longrightarrow>
      setViewport b (viewport_at w) = None \<and> evaluate b (viewport_at w) = Inr (reported w)"
    using assms(2) by (simp add: viewport_at_def)
  have "while_sweep b (maxViewport opts)
          \<lparr>VIEWPORT = viewport_at (minViewport opts), imageWidths = [], requests = []\<rparr> =
        (None, \<lparr>VIEWPORT = viewport_at (max (minViewport opts) (maxViewport opts + 1)),
                imageWidths = [] @ map (\<lambda>w. (w, reported w)) [minViewport opts .. maxViewport opts],
                requests = [] @ map viewport_at [minViewport opts .. maxViewport opts]\<rparr>)"
    by (rule while_sweep_success[OF ok _ refl]) simp_all
  then show ?thesis using assms(1) by (simp add: sweep_def viewport_at_def)
qed

theorem sweep_measures_each_width_witness:
  "fst (sweep ex_browser ex_options) = None \<and>
   imageWidths (snd (sweep ex_browser ex_options)) =
     [(300, Num (Fin 300)), (301, Num (Fin 301)), (302, Num (Fin 302))]"
  using sweep_measures_each_width[of ex_browser ex_options "\<lambda>w. Num (Fin (of_int w))"]
  by (simp add: ex_browser_def ex_options_def)

text \<open>
  C9. Whatever the browser does, the resize requests of a sweep are the objects
  \<open>{width: w, height: 2000, deviceScaleFactor: 1}\<close> for the consecutive widths \<open>w\<close> from
  \<open>minViewport\<close> on: the height and the scale factor are the same in every request and only the
  width changes.
\<close>

theorem resize_requests_differ_in_width_only:
  "requests (snd (sweep b opts)) =
     map (\<lambda>w. \<lparr>width = w, height = 2000, deviceScaleFactor = 1\<rparr>)
       [minViewport opts .. minViewport opts + int (length (requests (snd (sweep b opts)))) - 1] \<and>
   map height (requests (snd (sweep b opts))) =
     replicate (length (requests (snd (sweep b opts)))) 2000 \<and>
   map deviceScaleFactor (requests (snd (sweep b opts))) =
     replicate (length (requests (snd (sweep b opts)))) 1"
proof (cases "goto b")
  case (Some e)
  then show ?thesis by (simp add: sweep_def)
next
  case None
  let ?s0 = "\<lparr>VIEWPORT = \<lparr>width = minViewport opts, height = 2000, deviceScaleFactor = 1\<rparr>,
              imageWidths = [], requests = []\<rparr>"
  have sw: "sweep b opts = while_sweep b (maxViewport opts) ?s0"
    using None by (simp add: sweep_def)
  obtain n where n: "requests (snd (while_sweep b (maxViewport opts) ?s0)) =
      requests ?s0 @ map viewport_at [width (VIEWPORT ?s0) .. width (VIEWPORT ?s0) + int n - 1]"
    using while_sweep_requests[of ?s0 b "maxViewport opts"] by auto
  then have rq: "requests (snd (sweep b opts)) =
      map viewport_at [minViewport opts .. minViewport opts + int n - 1]"
    using sw by simp
  then have len: "length (requests (snd (sweep b opts))) = n" by simp
  have h: "map height (map viewport_at xs) = replicate (length xs) 2000" for xs
    by (induction xs) (simp_all add: viewport_at_def)
  have f: "map deviceScaleFactor (map viewport_at xs) = replicate (length xs) 1" for xs
    by (induction xs) (simp_all add: viewport_at_def)
  have "map height (requests (snd (sweep b opts))) = replicate n 2000"
    unfolding rq h by simp
  moreover have "map deviceScaleFactor (requests (snd (sweep b opts))) = replicate n 1"
    unfolding rq f by simp
  moreover have "requests (snd (sweep b opts)) =
     map (\<lambda>w. \<lparr>width = w, height = 2000, deviceScaleFactor = 1\<rparr>)
       [minViewport opts .. minViewport opts + int n - 1]"
    using rq by (simp add: viewport_at_def)
  ultimately show ?thesis unfolding len by simp
qed

subsection \<open>The aggregation\<close>



text \<open>
  C3, as stated, fails: three records with 7, 2 and 1 views get the shares that are the
  doubles nearest to 0.7, 0.2 and 0.1. Added as the language adds them they give
  \<open>0.9999999999999999\<close>, that is \<open>1 - 2^-53\<close>, and their exact sum is not 1 either.
\<close>

theorem shares_sum_counterexample:
  "js_sum (map snd (demand_distribution ex_options ex_measured ex_uneven_contexts)) =
     Fin (9007199254740991 / 9007199254740992) \<and>
   sum_list (map (\<lambda>e. the_fin (snd e))
     (demand_distribution ex_options ex_measured ex_uneven_contexts)) \<noteq> 1"
  by (simp add: run_eval double_eval ex_eval js_sum_def)

text \<open>
  C3, as amended. When the views of the records within the bounds add up to a positive number
  (of at most \<open>2^53\<close>), every share is a finite double, and the exact sum of the \<open>n\<close> shares
  differs from 1 by at most \<open>n \<times> 2^-53\<close>: the shares add up to 1 within the tolerance of the
  rounding of each quotient.
\<close>

theorem shares_sum_to_one_within_tolerance:
  assumes "0 < spec_totalViews (filter (in_range opts) contexts)"
    and "spec_totalViews (filter (in_range opts) contexts) \<le> 2 ^ 53"
  shows "(\<exists>ss. map snd (demand_distribution opts iw contexts) = map Fin ss) \<and>
         \<bar>sum_list (map (\<lambda>e. the_fin (snd e)) (demand_distribution opts iw contexts)) - 1\<bar>
           \<le> of_nat (length (demand_distribution opts iw contexts)) * (1 / 2 ^ 53)"
proof -
  let ?t = "spec_totalViews (filter (in_range opts) contexts)"
  let ?m = "tally (demands opts iw contexts)"
  let ?D = "demand_distribution opts iw contexts"
  let ?S = "shares ?t ?m"
  have sum: "sum_list (map snd ?m) = ?t" by (simp add: sum_tally sum_demands)
  have perm: "mset ?D = mset ?S"
    unfolding mset_demand_distribution percentages_shares[OF assms(2)] ..
  then have sets: "set ?D = set ?S" by (metis set_mset_mset)
  have len: "length ?D = length ?m"
    using perm by (metis size_mset length_map shares_def)
  have se: "(\<forall>e \<in> set ?S. \<exists>a. snd e = Fin a) \<and>
      \<bar>sum_list (map (\<lambda>e. the_fin (snd e)) ?S) - of_nat (sum_list (map snd ?m)) / of_nat ?t\<bar>
         \<le> of_nat (length ?m) * (1 / 2 ^ 53)"
    by (rule shares_error[OF assms(1)]) (simp only: sum order_refl)
  have fin: "\<And>x. x \<in> set (map snd ?D) \<Longrightarrow> \<exists>a. x = Fin a"
    using se sets by auto
  have "map Fin (map the_fin (map snd ?D)) = map snd ?D"
    by (rule all_fin_map[OF fin])
  then have ex: "\<exists>ss. map snd ?D = map Fin ss" by metis
  have eq: "sum_list (map (\<lambda>e. the_fin (snd e)) ?D) = sum_list (map (\<lambda>e. the_fin (snd e)) ?S)"
    by (rule sum_list_perm[OF perm])
  have one: "(of_nat (sum_list (map snd ?m)) :: rat) / of_nat ?t = 1"
    unfolding sum by (rule ratio_self[OF assms(1)])
  have "\<bar>sum_list (map (\<lambda>e. the_fin (snd e)) ?S) - 1\<bar> \<le> of_nat (length ?m) * (1 / 2 ^ 53)"
    using se unfolding one by (rule conjunct2)
  then have "\<bar>sum_list (map (\<lambda>e. the_fin (snd e)) ?D) - 1\<bar>
      \<le> of_nat (length ?D) * (1 / 2 ^ 53)"
    unfolding eq len .
  then show ?thesis using ex by (rule conjI[rotated])
qed

theorem shares_sum_to_one_within_tolerance_witness:
  "(\<exists>ss. map snd (demand_distribution ex_options ex_measured ex_uneven_contexts) = map Fin ss) \<and>
   \<bar>sum_list (map (\<lambda>e. the_fin (snd e))
       (demand_distribution ex_options ex_measured ex_uneven_contexts)) - 1\<bar>
     \<le> of_nat (length (demand_distribution ex_options ex_measured ex_uneven_contexts)) *
        (1 / 2 ^ 53)"
  by (rule shares_sum_to_one_within_tolerance)
    (simp_all add: spec_totalViews_def in_range_def ex_options_def ex_uneven_contexts_def)

text \<open>
  C4, as stated, fails: with one record within the bounds and no views, \<open>totalViews\<close> is 0,
  \<open>main\<close> resolves without an error and the share of the width 300 is \<open>0 / 0\<close>, that is
  \<open>NaN\<close>.
\<close>

theorem zero_totalViews_counterexample:
  "main ex_browser ex_options ex_idle_contexts =
     Inr \<lparr>measured = ex_measured, resize_requests = ex_requests, logged_errors = [],
          distribution = [(Fin 300, NaN)], total = Fin 0, srcset = []\<rparr>"
  by (simp add: run_eval double_eval ex_eval)

text \<open>
  C4, as amended. When the views of the records within the bounds add up to zero, no error
  is raised: as long as the browser starts and closes, \<open>main\<close> resolves, \<open>totalViews\<close> is 0,
  the distribution has exactly one entry for each perfect width of a record within the bounds
  (its keys are these perfect widths and no key occurs twice) and every share in it is \<open>NaN\<close>,
  the result of dividing the count 0 by the total 0.
\<close>

theorem zero_totalViews_gives_NaN_shares:
  assumes "launch b = None" and "close b = None"
    and "sum_list (map views (filter (in_range opts) contexts)) = 0"
  shows "\<exists>r. main b opts contexts = Inr r \<and> total r = Fin 0 \<and>
             map snd (distribution r) = replicate (length (distribution r)) NaN \<and>
             distinct (map fst (distribution r)) \<and>
             fst ` set (distribution r) =
               perfectWidth_of (measured r) ` set (filter (in_range opts) contexts)"
proof -
  let ?iw = "imageWidths (snd (sweep b opts))"
  let ?D = "demand_distribution opts ?iw contexts"
  have t: "spec_totalViews (filter (in_range opts) contexts) = 0"
    using assms(3) by (simp add: spec_totalViews_def)
  have b: "spec_totalViews (filter (in_range opts) contexts) \<le> 2 ^ 53"
    unfolding t by simp
  have s: "sum_list (map snd (tally (demands opts ?iw contexts))) = 0"
    using t by (simp add: sum_tally sum_demands)
  have sets: "set ?D = set (shares 0 (tally (demands opts ?iw contexts)))"
    unfolding set_demand_distribution percentages_shares[OF b] t ..
  have "\<And>y. y \<in> set (map snd ?D) \<Longrightarrow> y = NaN"
    using shares_of_nothing[OF s] sets by auto
  then have nan: "map snd ?D = replicate (length ?D) NaN"
    using replicate_length_same[of "map snd ?D" NaN] by simp
  have keys: "fst ` set ?D = perfectWidth_of ?iw ` set (filter (in_range opts) contexts)"
    by (rule keys_demand_distribution)
  have tot: "totalViews (count_contexts opts ?iw contexts) = Fin 0"
    by (simp add: count_contexts_tally[OF b] t)
  show ?thesis
    unfolding main_resolves[OF assms(1,2)]
    using nan keys tot distinct_demand_distribution[of opts ?iw contexts] by simp
qed

theorem zero_totalViews_gives_NaN_shares_witness:
  "\<exists>r. main ex_browser ex_options ex_idle_contexts = Inr r \<and> total r = Fin 0 \<and>
       map snd (distribution r) = replicate (length (distribution r)) NaN \<and>
       distinct (map fst (distribution r)) \<and>
       fst ` set (distribution r) =
         perfectWidth_of (measured r) ` set (filter (in_range ex_options) ex_idle_contexts)"
  by (rule zero_totalViews_gives_NaN_shares)
    (simp_all add: ex_browser_def ex_idle_contexts_def)

text \<open>
  C8. For a record whose density is at least 1 (and not so large that it reads as
  \<open>Infinity\<close>) and whose rendered width is an integer \<open>w\<close> with \<open>0 \<le> w \<le> 2^53\<close>, the perfect
  width \<open>Math.ceil(w * density)\<close>, computed in doubles, is \<open>Infinity\<close> or an integer that is at
  least \<open>w\<close>: the rounding of the product never brings it below the rendered width.
\<close>

theorem perfectWidth_at_least_rendered:
  assumes "1 \<le> density r" and "to_double (density r) \<noteq> PInf"
    and "0 \<le> w" and "w \<le> 2 ^ 53"
    and "imageWidths_get iw (viewport r) = Num (Fin (of_int w))"
  shows "perfectWidth_of iw r = PInf \<or>
         (\<exists>p. perfectWidth_of iw r = Fin (of_int p) \<and> w \<le> p)"
proof -
  have dpos: "0 < density r" using assms(1) by simp
  have "round_pos (density r) = PInf \<or> (\<exists>y. round_pos (density r) = Fin y \<and> of_int 1 \<le> y)"
    by (rule round_pos_ge) (use assms(1) in simp_all)
  then obtain d where d: "to_double (density r) = Fin d" "1 \<le> d"
    using assms(2) unfolding to_double_pos[OF dpos] by auto
  have pw: "perfectWidth_of iw r = js_ceil (to_double (of_int w * d))"
    by (simp add: perfectWidth_of_def assms(5) d(1))
  show ?thesis
  proof (cases "w = 0")
    case True
    then have "perfectWidth_of iw r = Fin (of_int 0)"
      unfolding pw by (simp add: to_double_def)
    then show ?thesis using True by blast
  next
    case False
    then have w1: "1 \<le> w" using assms(3) by simp
    have "(of_int w :: rat) * 1 \<le> of_int w * d"
      using d(2) assms(3) by (intro mult_left_mono) simp_all
    then have le: "(of_int w :: rat) \<le> of_int w * d" by simp
    have "(0 :: rat) < of_int w" using w1 by simp
    then have pos: "0 < of_int w * d" using le by (rule less_le_trans)
    have td: "to_double (of_int w * d) = round_pos (of_int w * d)"
      by (rule to_double_pos[OF pos])
    have "round_pos (of_int w * d) = PInf \<or>
          (\<exists>y. round_pos (of_int w * d) = Fin y \<and> of_int w \<le> y)"
      by (rule round_pos_ge[OF w1 assms(4) le])
    then show ?thesis
    proof
      assume "round_pos (of_int w * d) = PInf"
      then have "perfectWidth_of iw r = PInf"
        unfolding pw td by simp
      then show ?thesis by blast
    next
      assume "\<exists>y. round_pos (of_int w * d) = Fin y \<and> of_int w \<le> y"
      then obtain y where y: "round_pos (of_int w * d) = Fin y" "of_int w \<le> y" by blast
      have "perfectWidth_of iw r = Fin (of_int \<lceil>y\<rceil>)"
        unfolding pw td using y(1) by simp
      moreover have "w \<le> \<lceil>y\<rceil>" using y(2) by (simp add: le_ceiling_iff)
      ultimately show ?thesis by blast
    qed
  qed
qed

theorem perfectWidth_at_least_rendered_witness:
  "perfectWidth_of ex_measured ex_dense_record = Fin 330 \<and>
   (perfectWidth_of ex_measured ex_dense_record = PInf \<or>
    (\<exists>p. perfectWidth_of ex_measured ex_dense_record = Fin (of_int p) \<and> 300 \<le> p))"
proof
  show "perfectWidth_of ex_measured ex_dense_record = Fin 330"
    by (simp add: run_eval double_eval ex_eval)
  show "perfectWidth_of ex_measured ex_dense_record = PInf \<or>
    (\<exists>p. perfectWidth_of ex_measured ex_dense_record = Fin (of_int p) \<and> 300 \<le> p)"
    by (rule perfectWidth_at_least_rendered)
      (simp_all add: double_eval ex_eval imageWidths_get_def)
qed

text \<open>
  C10. The lookup of line 172 is not guarded: when a record of the list lies within the
  bounds and its viewport is not a key of \<open>imageWidths\<close>, its perfect width is \<open>NaN\<close>, and
  \<open>NaN\<close> is a key of \<open>perfectWidths\<close> after the counting and of the final distribution. The
  aggregation has no failing path.
\<close>

theorem missing_measurement_gives_NaN_key:
  assumes "r \<in> set contexts"
    and "minViewport opts \<le> viewport r" and "viewport r \<le> maxViewport opts"
    and "map_of iw (viewport r) = None"
  shows "perfectWidth_of iw r = NaN \<and>
         NaN \<in> fst ` set (perfectWidths (count_contexts opts iw contexts)) \<and>
         NaN \<in> fst ` set (demand_distribution opts iw contexts)"
proof -
  have pw: "perfectWidth_of iw r = NaN"
    using assms(4) by (simp add: perfectWidth_of_def imageWidths_get_def)
  have "r \<in> set (filter (in_range opts) contexts)"
    using assms(1-3) by (simp add: in_range_def)
  then have k: "NaN \<in> perfectWidth_of iw ` set (filter (in_range opts) contexts)"
    using pw by (metis imageI)
  have "fst ` set (perfectWidths (count_contexts opts iw contexts)) =
        perfectWidth_of iw ` set (filter (in_range opts) contexts)"
    using keys_counted[of opts iw contexts] by (simp only: set_map)
  then show ?thesis using pw k by (simp add: keys_demand_distribution)
qed

theorem missing_measurement_gives_NaN_key_witness:
  "perfectWidth_of [] \<lparr>viewport = 300, density = 1, views = 10\<rparr> = NaN \<and>
   NaN \<in> fst ` set (perfectWidths (count_contexts ex_options [] ex_contexts)) \<and>
   NaN \<in> fst ` set (demand_distribution ex_options [] ex_contexts)"
  by (rule missing_measurement_gives_NaN_key)
    (simp_all add: ex_contexts_def ex_options_def)

subsection \<open>The srcset\<close>

text \<open>
  C5, as stated, fails: in the example run the distribution has two widths and
  \<open>widthsNumber\<close> is 1, yet \<open>srcset\<close> has no width instead of \<open>min(1, 2) = 1\<close>.
\<close>

theorem srcset_size_counterexample:
  "main ex_browser ex_options ex_contexts = Inr ex_run \<and>
   length (srcset ex_run) \<noteq> min (widthsNumber ex_options) (length (distribution ex_run))"
  using main_ex by (simp add: ex_run_def ex_options_def)

text \<open>
  C5, as amended. For every distribution and every target count \<open>N \<ge> 1\<close> the \<open>srcset\<close> of the
  source contains no width; it has the \<open>min(N, number of distinct demand widths)\<close> widths only
  when the distribution has no width at all.
\<close>

theorem srcset_size_only_for_empty_distribution:
  assumes "main b opts contexts = Inr r" and "1 \<le> widthsNumber opts"
  shows "length (srcset r) = 0 \<and>
         (length (srcset r) = min (widthsNumber opts) (length (distribution r))) =
           (distribution r = [])"
proof -
  have "srcset r = []"
    using assms(1) by (auto simp: main_def Let_def split: option.splits prod.splits)
  then show ?thesis using assms(2) by (cases "distribution r") auto
qed

theorem srcset_size_only_for_empty_distribution_witness:
  "length (srcset ex_run) = 0 \<and>
   (length (srcset ex_run) = min (widthsNumber ex_options) (length (distribution ex_run))) =
     (distribution ex_run = [])"
  by (rule srcset_size_only_for_empty_distribution[OF main_ex]) (simp add: ex_options_def)

text \<open>
  C6. Whenever \<open>main\<close> resolves, \<open>srcset\<close> is the empty list, whatever the distribution and
  \<open>widthsNumber\<close> are.
\<close>

theorem srcset_is_empty:
  assumes "main b opts contexts = Inr r"
  shows "srcset r = []"
  using assms by (auto simp: main_def Let_def split: option.splits prod.splits)

theorem srcset_is_empty_witness:
  "main ex_browser ex_options ex_contexts = Inr ex_run \<and> srcset ex_run = []"
  using srcset_is_empty[OF main_ex] main_ex by simp

subsection \<open>Errors of the browser\<close>

text \<open>
  C7, as stated, fails: when the navigation is rejected, \<open>main\<close> still resolves; the error
  is only logged and the aggregation goes on over the empty \<open>imageWidths\<close>, which puts all the
  views on the key \<open>NaN\<close>.
\<close>

theorem navigation_failure_counterexample:
  "main ex_offline_browser ex_options ex_contexts =
     Inr \<lparr>measured = [], resize_requests = [],
          logged_errors = [Error ''net::ERR_NAME_NOT_RESOLVED''],
          distribution = [(NaN, Fin 1)], total = Fin 15, srcset = []\<rparr>"
  by (simp add: run_eval double_eval ex_eval)

text \<open>
  C7, as amended. When the navigation is rejected (and the browser starts and closes), the
  sweep does not start: no resize is requested and nothing is measured. The error is handed
  to the logger and not to the caller: \<open>main\<close> resolves, after an aggregation over the empty
  \<open>imageWidths\<close>.
\<close>

theorem navigation_failure_is_logged:
  assumes "launch b = None" and "goto b = Some e" and "close b = None"
  shows "main b opts contexts =
    Inr \<lparr>measured = [], resize_requests = [], logged_errors = [e],
         distribution = demand_distribution opts [] contexts,
         total = totalViews (count_contexts opts [] contexts),
         srcset = []\<rparr>"
proof -
  have "sweep b opts =
      (Some e, \<lparr>VIEWPORT = \<lparr>width = minViewport opts, height = 2000, deviceScaleFactor = 1\<rparr>,
                imageWidths = [], requests = []\<rparr>)"
    using assms(2) by (simp add: sweep_def)
  then show ?thesis unfolding main_resolves[OF assms(1,3)] by simp
qed

theorem navigation_failure_is_logged_witness:
  "main ex_offline_browser ex_options ex_contexts =
    Inr \<lparr>measured = [], resize_requests = [],
         logged_errors = [Error ''net::ERR_NAME_NOT_RESOLVED''],
         distribution = demand_distribution ex_options [] ex_contexts,
         total = totalViews (count_contexts ex_options [] ex_contexts),
         srcset = []\<rparr>"
  by (rule navigation_failure_is_logged)
    (simp_all add: ex_offline_browser_def ex_browser_def)

end
